theory Spec2Isabelle
  imports Complex_Main "HOL-Library.Multiset"
begin

section \<open>Data model of \<^verbatim>\<open>tsp_solver.py\<close>\<close>

text \<open>
  Vertex IDs are Python integers, coordinates are pairs of floats and the coordinate
  dictionary maps IDs to coordinates. The dictionary is an association list in insertion
  order (the order \<^verbatim>\<open>coordinates.keys()\<close> iterates in); a Python dictionary holds each
  key once, which is \<open>dict_ok\<close>. Floating-point numbers are idealised as real numbers:
  rounding, overflow and NaN are outside this model. The one infinite float the code
  creates, \<^verbatim>\<open>float('inf')\<close>, is the constructor \<open>Infinity\<close>.
\<close>

type_synonym vertex = int
type_synonym coord = "real \<times> real"
type_synonym coordinates = "(vertex \<times> coord) list"

datatype error = KeyError vertex

datatype pyfloat = Finite real | Infinity

definition dict_ok :: "coordinates \<Rightarrow> bool" where
  "dict_ok coordinates = distinct (map fst coordinates)"

definition keys :: "coordinates \<Rightarrow> vertex list" where
  "keys coordinates = map fst coordinates"

text \<open>\<^verbatim>\<open>coordinates[k]\<close>: raises \<^verbatim>\<open>KeyError\<close> when the key is absent.\<close>

definition getitem :: "coordinates \<Rightarrow> vertex \<Rightarrow> error + coord" where
  "getitem coordinates k =
     (case map_of coordinates k of None \<Rightarrow> Inl (KeyError k) | Some c \<Rightarrow> Inr c)"

text \<open>\<^verbatim>\<open>distance < best_distance\<close>, where only the right operand can be infinite.\<close>

fun less_pyfloat :: "real \<Rightarrow> pyfloat \<Rightarrow> bool" where
  "less_pyfloat d Infinity = True"
| "less_pyfloat d (Finite b) = (d < b)"

section \<open>Distance metric\<close>

fun euclidean_distance :: "coord \<Rightarrow> coord \<Rightarrow> real" where
  "euclidean_distance (x1, y1) (x2, y2) = sqrt ((x2 - x1)\<^sup>2 + (y2 - y1)\<^sup>2)"

text \<open>
  The \<^verbatim>\<open>for i in range(len(tour) - 1)\<close> loop of \<^verbatim>\<open>calculate_tour_distance\<close>, run over
  the list of indices with the accumulator \<^verbatim>\<open>total_distance\<close>. Both subscripts are in
  range for every index of the range; a missing key ends the loop with the exception.
\<close>

fun consecutive_loop :: "vertex list \<Rightarrow> coordinates \<Rightarrow> nat list \<Rightarrow> real \<Rightarrow> error + real" where
  "consecutive_loop tour coordinates [] total_distance = Inr total_distance"
| "consecutive_loop tour coordinates (i # is) total_distance =
     (case getitem coordinates (tour ! i) of
        Inl e \<Rightarrow> Inl e
      | Inr c1 \<Rightarrow>
          (case getitem coordinates (tour ! (i + 1)) of
             Inl e \<Rightarrow> Inl e
           | Inr c2 \<Rightarrow>
               consecutive_loop tour coordinates is
                 (total_distance + euclidean_distance c1 c2)))"

definition calculate_tour_distance :: "vertex list \<Rightarrow> coordinates \<Rightarrow> error + real" where
  "calculate_tour_distance tour coordinates =
     (if length tour < 2 then Inr 0
      else
        (case consecutive_loop tour coordinates [0..<length tour - 1] 0 of
           Inl e \<Rightarrow> Inl e
         | Inr total_distance \<Rightarrow>
             (case getitem coordinates (last tour) of
                Inl e \<Rightarrow> Inl e
              | Inr c1 \<Rightarrow>
                  (case getitem coordinates (tour ! 0) of
                     Inl e \<Rightarrow> Inl e
                   | Inr c2 \<Rightarrow> Inr (total_distance + euclidean_distance c1 c2)))))"

section \<open>Enumeration of orderings\<close>

text \<open>
  \<^verbatim>\<open>itertools.permutations(xs)\<close> yields the orderings of \<open>xs\<close> in lexicographic order
  of positions: every element in turn, each followed by the orderings of the others.
  \<open>picks xs\<close> lists every element of \<open>xs\<close> with the rest of the list, in order.
\<close>

fun picks :: "'a list \<Rightarrow> ('a \<times> 'a list) list" where
  "picks [] = []"
| "picks (x # xs) = (x, xs) # map (\<lambda>(y, ys). (y, x # ys)) (picks xs)"

fun perms_of_length :: "nat \<Rightarrow> 'a list \<Rightarrow> 'a list list" where
  "perms_of_length 0 xs = [[]]"
| "perms_of_length (Suc n) xs =
     concat (map (\<lambda>(y, ys). map ((#) y) (perms_of_length n ys)) (picks xs))"

definition permutations :: "'a list \<Rightarrow> 'a list list" where
  "permutations xs = perms_of_length (length xs) xs"

section \<open>The time-bounded search\<close>

text \<open>
  The local variables the loop of \<^verbatim>\<open>brute_force_tsp\<close> updates. The wall clock is a
  function \<open>clock\<close>: its value at \<open>k\<close> is what the \<open>k\<close>-th call of \<^verbatim>\<open>time.time()\<close>
  returns (call \<open>0\<close> sets \<^verbatim>\<open>start_time\<close>), and \<open>clock_reads\<close> counts the calls made.
\<close>

record search_state =
  checked :: nat
  clock_reads :: nat
  best_tour :: "vertex list option"
  best_distance :: pyfloat

definition check_interval :: nat where
  "check_interval = 10000"

definition initial_state :: search_state where
  "initial_state =
     \<lparr>checked = 0, clock_reads = 1, best_tour = None, best_distance = Infinity\<rparr>"

text \<open>
  One iteration of the \<^verbatim>\<open>for perm in permutations(...)\<close> loop. The result is the
  exception, or the updated variables with a flag that says whether \<^verbatim>\<open>break\<close> was taken.
\<close>

definition loop_body ::
  "(nat \<Rightarrow> real) \<Rightarrow> real \<Rightarrow> real \<Rightarrow> coordinates \<Rightarrow> vertex \<Rightarrow> vertex list \<Rightarrow> search_state
     \<Rightarrow> error + (bool \<times> search_state)" where
  "loop_body clock start_time cutoff_time coordinates start_vertex perm st =
     (let c = checked st + 1;
          timed = (c = 1 \<or> c mod check_interval = 0);
          elapsed = clock (clock_reads st) - start_time;
          st1 = st\<lparr>checked := c,
                   clock_reads := (if timed then clock_reads st + 1 else clock_reads st)\<rparr>
      in if timed \<and> elapsed > cutoff_time then Inr (True, st1)
         else
           (let tour = start_vertex # perm in
            case calculate_tour_distance tour coordinates of
              Inl e \<Rightarrow> Inl e
            | Inr distance \<Rightarrow>
                if less_pyfloat distance (best_distance st1)
                then Inr (False, st1\<lparr>best_tour := Some tour, best_distance := Finite distance\<rparr>)
                else Inr (False, st1)))"

fun loop ::
  "(nat \<Rightarrow> real) \<Rightarrow> real \<Rightarrow> real \<Rightarrow> coordinates \<Rightarrow> vertex \<Rightarrow> vertex list list \<Rightarrow> search_state
     \<Rightarrow> error + (bool \<times> search_state)" where
  "loop clock start_time cutoff_time coordinates start_vertex [] st = Inr (False, st)"
| "loop clock start_time cutoff_time coordinates start_vertex (perm # perms) st =
     (case loop_body clock start_time cutoff_time coordinates start_vertex perm st of
        Inl e \<Rightarrow> Inl e
      | Inr (True, st') \<Rightarrow> Inr (True, st')
      | Inr (False, st') \<Rightarrow>
          loop clock start_time cutoff_time coordinates start_vertex perms st')"

text \<open>
  Lines 101 to 134 of \<^verbatim>\<open>brute_force_tsp\<close>, for two vertices or more: the anchor is the
  smallest ID, the loop runs over the orderings of the other IDs.
\<close>

definition enumerate_tours ::
  "(nat \<Rightarrow> real) \<Rightarrow> coordinates \<Rightarrow> real \<Rightarrow> error + (bool \<times> search_state)" where
  "enumerate_tours clock coordinates cutoff_time =
     (let start_time = clock 0;
          vertices = sort (keys coordinates);
          start_vertex = vertices ! 0;
          remaining_vertices = drop 1 vertices
      in loop clock start_time cutoff_time coordinates start_vertex
           (permutations remaining_vertices) initial_state)"

definition brute_force_tsp ::
  "(nat \<Rightarrow> real) \<Rightarrow> coordinates \<Rightarrow> real \<Rightarrow> error + (vertex list \<times> pyfloat)" where
  "brute_force_tsp clock coordinates cutoff_time =
     (let vertices = sort (keys coordinates) in
      if length vertices = 0 then Inr ([], Finite 0)
      else if length vertices = 1 then Inr (vertices, Finite 0)
      else
        (let start_vertex = vertices ! 0;
             remaining_vertices = drop 1 vertices
         in case enumerate_tours clock coordinates cutoff_time of
              Inl e \<Rightarrow> Inl e
            | Inr (broke, st) \<Rightarrow>
                (case best_tour st of
                   None \<Rightarrow>
                     (let fallback = start_vertex # remaining_vertices in
                      case calculate_tour_distance fallback coordinates of
                        Inl e \<Rightarrow> Inl e
                      | Inr d \<Rightarrow> Inr (fallback, Finite d))
                 | Some t \<Rightarrow> Inr (t, best_distance st))))"

section \<open>Auxiliary definitions for the proofs\<close>

text \<open>
  The definitions below are not part of the program; the statements and proofs use them.
  \<^item> \<open>coord_of\<close>, \<open>edge\<close>: the coordinates of a key that is present, and the Euclidean
    distance between two such keys.
  \<^item> \<open>tour_length\<close>: the length of a closed tour as the specification words it, the sum
    of the consecutive edges plus the closing edge, and \<open>0\<close> below two vertices;
    \<open>path_length\<close> is the same sum of consecutive edges by recursion on the list.
  \<^item> \<open>pyfloat_le b d\<close>: \<^verbatim>\<open>b <= d\<close> for an incumbent distance \<open>b\<close> that may be infinite.
  \<^item> \<open>incumbent\<close>: the pair \<^verbatim>\<open>(best_tour, best_distance)\<close> of a state; \<open>improve\<close>: its update
    by one candidate, the \<^verbatim>\<open>if distance < best_distance\<close> of the loop.
  \<^item> \<open>time_check\<close>: the next iteration from a state makes a time check and the check finds
    the budget exceeded. \<open>reads_after c\<close>: the number of clock calls made once \<open>c\<close>
    iterations are done; \<open>reads_ok\<close>: the state's counter agrees with it; \<open>fires c\<close>:
    iteration \<open>c\<close> makes a time check that finds the budget exceeded.
  \<^item> \<open>anchor\<close>, \<open>candidates\<close>: the smallest ID, and the tours the loop builds (the anchor
    followed by each ordering of the other IDs) in the order it builds them.
  \<^item> \<open>first_shortest cm tours k i\<close>: among the first \<open>k\<close> tours, number \<open>i\<close> is the
    first one of smallest length.
  \<^item> \<open>run_summary\<close>: what a run of the search on two vertices or more amounts to, with
    \<open>k\<close> the number of candidates evaluated.
  \<^item> \<open>triangle\<close>: three vertices at distances 3, 4 and 5, the input of the examples.
\<close>

definition coord_of :: "coordinates \<Rightarrow> vertex \<Rightarrow> coord" where
  "coord_of coordinates v = the (map_of coordinates v)"

definition edge :: "coordinates \<Rightarrow> vertex \<Rightarrow> vertex \<Rightarrow> real" where
  "edge coordinates u v = euclidean_distance (coord_of coordinates u) (coord_of coordinates v)"

definition tour_length :: "coordinates \<Rightarrow> vertex list \<Rightarrow> real" where
  "tour_length coordinates tour =
     (if length tour < 2 then 0
      else (\<Sum>i<length tour - 1. edge coordinates (tour ! i) (tour ! (i + 1)))
           + edge coordinates (last tour) (tour ! 0))"


fun pyfloat_le :: "pyfloat \<Rightarrow> real \<Rightarrow> bool" where
  "pyfloat_le Infinity d = False"
| "pyfloat_le (Finite b) d = (b \<le> d)"

type_synonym incumbent = "vertex list option \<times> pyfloat"

definition incumbent :: "search_state \<Rightarrow> incumbent" where
  "incumbent st = (best_tour st, best_distance st)"

definition improve :: "coordinates \<Rightarrow> vertex \<Rightarrow> incumbent \<Rightarrow> vertex list \<Rightarrow> incumbent" where
  "improve cm a inc p =
     (if less_pyfloat (tour_length cm (a # p)) (snd inc)
      then (Some (a # p), Finite (tour_length cm (a # p))) else inc)"

definition reads_after :: "nat \<Rightarrow> nat" where
  "reads_after c = (if c = 0 then 1 else 2 + c div check_interval)"

definition fires :: "(nat \<Rightarrow> real) \<Rightarrow> real \<Rightarrow> real \<Rightarrow> nat \<Rightarrow> bool" where
  "fires clock start_time cutoff_time c =
     ((c = 1 \<or> c mod check_interval = 0)
      \<and> cutoff_time < clock (reads_after (c - 1)) - start_time)"

definition reads_ok :: "search_state \<Rightarrow> bool" where
  "reads_ok st = (clock_reads st = reads_after (checked st))"

definition anchor :: "coordinates \<Rightarrow> vertex" where
  "anchor cm = sort (keys cm) ! 0"

definition candidates :: "coordinates \<Rightarrow> vertex list list" where
  "candidates cm = map ((#) (anchor cm)) (permutations (drop 1 (sort (keys cm))))"

definition first_shortest :: "coordinates \<Rightarrow> vertex list list \<Rightarrow> nat \<Rightarrow> nat \<Rightarrow> bool" where
  "first_shortest cm tours k i =
     (i < k \<and> (\<forall>j<k. tour_length cm (tours ! i) \<le> tour_length cm (tours ! j))
            \<and> (\<forall>j<i. tour_length cm (tours ! i) < tour_length cm (tours ! j)))"

definition run_summary ::
  "(nat \<Rightarrow> real) \<Rightarrow> coordinates \<Rightarrow> real \<Rightarrow> bool \<Rightarrow> search_state \<Rightarrow> nat \<Rightarrow> bool" where
  "run_summary clock cm cutoff b st k =
     (enumerate_tours clock cm cutoff = Inr (b, st)
      \<and> k \<le> fact (length cm - 1)
      \<and> checked st = k + (if b then 1 else 0)
      \<and> (b \<longrightarrow> k < fact (length cm - 1) \<and> fires clock (clock 0) cutoff (checked st))
      \<and> (\<not> b \<longrightarrow> k = fact (length cm - 1))
      \<and> (\<forall>c. 0 < c \<and> c \<le> k \<longrightarrow> \<not> fires clock (clock 0) cutoff c)
      \<and> (k = 0 \<longrightarrow> brute_force_tsp clock cm cutoff
             = Inr (sort (keys cm), Finite (tour_length cm (sort (keys cm)))))
      \<and> (0 < k \<longrightarrow> (\<exists>i. first_shortest cm (candidates cm) k i
             \<and> brute_force_tsp clock cm cutoff
                 = Inr (candidates cm ! i, Finite (tour_length cm (candidates cm ! i))))))"

definition triangle :: coordinates where
  "triangle = [(1, (0, 0)), (2, (3, 0)), (3, (3, 4))]"

definition time_check ::
  "(nat \<Rightarrow> real) \<Rightarrow> real \<Rightarrow> real \<Rightarrow> search_state \<Rightarrow> bool" where
  "time_check clock s cutoff st =
     ((checked st + 1 = 1 \<or> (checked st + 1) mod check_interval = 0)
      \<and> cutoff < clock (clock_reads st) - s)"

section \<open>Lemmas\<close>

lemma getitem_present:
  "k \<in> set (keys cm) \<Longrightarrow> getitem cm k = Inr (coord_of cm k)"
  by (auto simp: getitem_def coord_of_def keys_def map_of_eq_None_iff split: option.splits)




lemma consecutive_loop_present:
  "\<forall>i\<in>set is. tour ! i \<in> set (keys cm) \<and> tour ! (i + 1) \<in> set (keys cm) \<Longrightarrow>
   consecutive_loop tour cm is acc =
     Inr (acc + (\<Sum>i\<leftarrow>is. edge cm (tour ! i) (tour ! (i + 1))))"
  by (induction "is" arbitrary: acc) (simp_all add: getitem_present edge_def)



lemma calculate_tour_distance_short:
  "length tour < 2 \<Longrightarrow> calculate_tour_distance tour cm = Inr 0"
  by (simp add: calculate_tour_distance_def)

lemma calculate_tour_distance_present:
  assumes "set tour \<subseteq> set (keys cm)"
  shows "calculate_tour_distance tour cm = Inr (tour_length cm tour)"
proof (cases "length tour < 2")
  case True
  then show ?thesis by (simp add: calculate_tour_distance_def tour_length_def)
next
  case False
  then have ne: "tour \<noteq> []" by auto
  have idx: "\<forall>i\<in>set [0..<length tour - 1].
               tour ! i \<in> set (keys cm) \<and> tour ! (i + 1) \<in> set (keys cm)"
    using assms by (auto simp: subset_iff)
  have l: "last tour \<in> set (keys cm)" and h: "tour ! 0 \<in> set (keys cm)"
    using assms ne by (auto simp: subset_iff)
  have s: "(\<Sum>i\<leftarrow>[0..<length tour - 1]. edge cm (tour ! i) (tour ! (i + 1)))
           = (\<Sum>i<length tour - 1. edge cm (tour ! i) (tour ! (i + 1)))"
    by (simp add: interv_sum_list_conv_sum_set_nat atLeast0LessThan)
  have c: "consecutive_loop tour cm [0..<length tour - 1] 0
           = Inr (\<Sum>i<length tour - 1. edge cm (tour ! i) (tour ! (i + 1)))"
    using consecutive_loop_present[OF idx, of 0] s by simp
  show ?thesis
    unfolding calculate_tour_distance_def tour_length_def
    using False by (simp only: c getitem_present[OF l] getitem_present[OF h] edge_def
        if_False sum.case)
qed








lemma picks_mset:
  "(y, ys) \<in> set (picks xs) \<Longrightarrow> mset xs = add_mset y (mset ys)"
  by (induction xs arbitrary: y ys) auto

lemma picks_length:
  "(y, ys) \<in> set (picks xs) \<Longrightarrow> Suc (length ys) = length xs"
  by (induction xs arbitrary: y ys) auto

lemma length_picks: "length (picks xs) = length xs"
  by (induction xs) simp_all

lemma picks_member:
  "y \<in> set xs \<Longrightarrow> \<exists>ys. (y, ys) \<in> set (picks xs)"
proof (induction xs)
  case Nil
  then show ?case by simp
next
  case (Cons x xs)
  show ?case
  proof (cases "y = x")
    case True
    then show ?thesis by auto
  next
    case False
    with Cons.prems have "y \<in> set xs" by simp
    from Cons.IH[OF this] obtain ys where "(y, ys) \<in> set (picks xs)" ..
    then have "(y, x # ys) \<in> set (picks (x # xs))" by force
    then show ?thesis ..
  qed
qed

lemma perms_of_length_sound:
  "length xs = n \<Longrightarrow> zs \<in> set (perms_of_length n xs) \<Longrightarrow> mset zs = mset xs"
proof (induction n arbitrary: xs zs)
  case 0
  then show ?case by simp
next
  case (Suc n)
  from Suc.prems(2) obtain y ys ps where
    p: "(y, ys) \<in> set (picks xs)" and ps: "ps \<in> set (perms_of_length n ys)" and zs: "zs = y # ps"
    by auto
  from picks_length[OF p] Suc.prems(1) have "length ys = n" by simp
  from Suc.IH[OF this ps] have "mset ps = mset ys" .
  with picks_mset[OF p] zs show ?case by simp
qed

lemma perms_of_length_complete:
  "length xs = n \<Longrightarrow> mset zs = mset xs \<Longrightarrow> zs \<in> set (perms_of_length n xs)"
proof (induction n arbitrary: xs zs)
  case 0
  then show ?case by simp
next
  case (Suc n)
  from Suc.prems have "length zs = Suc n" by (metis size_mset)
  then obtain z zs' where zs: "zs = z # zs'" by (cases zs) auto
  with Suc.prems(2) have "z \<in> set xs" by (metis list.set_intros(1) mset_eq_setD)
  from picks_member[OF this] obtain ys where p: "(z, ys) \<in> set (picks xs)" ..
  from picks_length[OF p] Suc.prems(1) have l: "length ys = n" by simp
  from picks_mset[OF p] Suc.prems(2) zs have "mset zs' = mset ys" by simp
  from Suc.IH[OF l this] have "zs' \<in> set (perms_of_length n ys)" .
  with p zs show ?case by force
qed

lemma set_permutations: "set (permutations xs) = {zs. mset zs = mset xs}"
  unfolding permutations_def
  using perms_of_length_sound[OF refl] perms_of_length_complete[OF refl] by blast

lemma length_perms_of_length:
  "length xs = n \<Longrightarrow> length (perms_of_length n xs) = fact n"
proof (induction n arbitrary: xs)
  case 0
  then show ?case by simp
next
  case (Suc n)
  have each: "\<forall>p\<in>set (picks xs). length (case p of (y, ys) \<Rightarrow> map ((#) y) (perms_of_length n ys)) = fact n"
  proof
    fix p assume "p \<in> set (picks xs)"
    moreover obtain y ys where "p = (y, ys)" by (cases p)
    ultimately have p: "p = (y, ys)" "(y, ys) \<in> set (picks xs)" by simp_all
    from picks_length[OF p(2)] Suc.prems have "length ys = n" by simp
    from Suc.IH[OF this] p show "length (case p of (y, ys) \<Rightarrow> map ((#) y) (perms_of_length n ys)) = fact n"
      by simp
  qed
  have "length (perms_of_length (Suc n) xs)
        = (\<Sum>p\<leftarrow>picks xs. length (case p of (y, ys) \<Rightarrow> map ((#) y) (perms_of_length n ys)))"
    by (simp add: length_concat comp_def)
  also have "\<dots> = (\<Sum>p\<leftarrow>picks xs. fact n)"
    using each by (intro arg_cong[where f=sum_list] map_cong) auto
  also have "\<dots> = length xs * fact n"
    by (simp add: sum_list_replicate length_picks sum_list_triv)
  finally show ?case using Suc.prems by simp
qed

lemma length_permutations: "length (permutations xs) = fact (length xs)"
  by (simp add: permutations_def length_perms_of_length)

lemma reads_after_Suc:
  "reads_after (Suc c) =
     (if Suc c = 1 \<or> Suc c mod check_interval = 0 then reads_after c + 1 else reads_after c)"
proof (cases "c = 0")
  case True
  then show ?thesis by (simp add: reads_after_def check_interval_def)
next
  case False
  have "Suc c div check_interval
        = (if Suc c mod check_interval = 0 then c div check_interval + 1 else c div check_interval)"
    by (simp add: check_interval_def div_Suc)
  with False show ?thesis by (simp add: reads_after_def)
qed

lemma loop_body_step:
  assumes "set (a # p) \<subseteq> set (keys cm)" and "reads_ok st"
  shows "\<exists>st'. loop_body clock s cutoff cm a p st = Inr (fires clock s cutoff (checked st + 1), st')
           \<and> checked st' = checked st + 1 \<and> reads_ok st'
           \<and> incumbent st' = (if fires clock s cutoff (checked st + 1) then incumbent st
                               else improve cm a (incumbent st) p)"
proof -
  have d: "calculate_tour_distance (a # p) cm = Inr (tour_length cm (a # p))"
    by (rule calculate_tour_distance_present[OF assms(1)])
  have r: "clock_reads st = reads_after (checked st)" using assms(2) by (simp add: reads_ok_def)
  show ?thesis
    by (simp add: loop_body_def Let_def fires_def d r reads_ok_def reads_after_Suc
        incumbent_def improve_def)
qed

lemma loop_run:
  assumes "\<forall>p\<in>set ps. set (a # p) \<subseteq> set (keys cm)" and "reads_ok st"
  shows "\<exists>b st' k. loop clock s cutoff cm a ps st = Inr (b, st')
           \<and> k \<le> length ps
           \<and> checked st' = checked st + k + (if b then 1 else 0)
           \<and> (b \<longrightarrow> k < length ps \<and> fires clock s cutoff (checked st'))
           \<and> (\<not> b \<longrightarrow> k = length ps)
           \<and> (\<forall>c. checked st < c \<and> c \<le> checked st + k \<longrightarrow> \<not> fires clock s cutoff c)
           \<and> incumbent st' = foldl (improve cm a) (incumbent st) (take k ps)
           \<and> reads_ok st'"
  using assms
proof (induction ps arbitrary: st)
  case Nil
  then show ?case by (intro exI[of _ False] exI[of _ st] exI[of _ 0]) auto
next
  case (Cons p ps)
  from Cons.prems have kp: "set (a # p) \<subseteq> set (keys cm)" by simp
  from loop_body_step[OF kp Cons.prems(2), of clock s cutoff]
  obtain st1 where
    lb: "loop_body clock s cutoff cm a p st = Inr (fires clock s cutoff (checked st + 1), st1)"
    and c1: "checked st1 = checked st + 1" and r1: "reads_ok st1"
    and i1: "incumbent st1 = (if fires clock s cutoff (checked st + 1) then incumbent st
                               else improve cm a (incumbent st) p)"
    by blast
  show ?case
  proof (cases "fires clock s cutoff (checked st + 1)")
    case True
    have "loop clock s cutoff cm a (p # ps) st = Inr (True, st1)"
      using lb True by simp
    moreover have "incumbent st1 = foldl (improve cm a) (incumbent st) (take 0 (p # ps))"
      using i1 True by simp
    ultimately show ?thesis
      using c1 r1 True
      by (intro exI[of _ True] exI[of _ st1] exI[of _ 0]) auto
  next
    case False
    from Cons.prems have "\<forall>q\<in>set ps. set (a # q) \<subseteq> set (keys cm)" by simp
    from Cons.IH[OF this r1] obtain b st' k where
      l: "loop clock s cutoff cm a ps st1 = Inr (b, st')" and k: "k \<le> length ps"
      and c: "checked st' = checked st1 + k + (if b then 1 else 0)"
      and bt: "b \<longrightarrow> k < length ps \<and> fires clock s cutoff (checked st')"
      and bf: "\<not> b \<longrightarrow> k = length ps"
      and nf: "\<forall>c. checked st1 < c \<and> c \<le> checked st1 + k \<longrightarrow> \<not> fires clock s cutoff c"
      and inc: "incumbent st' = foldl (improve cm a) (incumbent st1) (take k ps)"
      and r: "reads_ok st'"
      by blast
    have l': "loop clock s cutoff cm a (p # ps) st = Inr (b, st')"
      using lb False l by simp
    have nf': "\<forall>c. checked st < c \<and> c \<le> checked st + Suc k \<longrightarrow> \<not> fires clock s cutoff c"
    proof (intro allI impI)
      fix c assume h: "checked st < c \<and> c \<le> checked st + Suc k"
      show "\<not> fires clock s cutoff c"
      proof (cases "c = checked st + 1")
        case True
        with False show ?thesis by simp
      next
        case False
        with h c1 have "checked st1 < c \<and> c \<le> checked st1 + k" by arith
        with nf show ?thesis by blast
      qed
    qed
    have inc': "incumbent st' = foldl (improve cm a) (incumbent st) (take (Suc k) (p # ps))"
      using inc i1 False by simp
    show ?thesis
      using l' k c c1 bt bf nf' inc' r
      by (intro exI[of _ b] exI[of _ st'] exI[of _ "Suc k"]) auto
  qed
qed

lemma less_pyfloat_trans:
  "d' < d \<Longrightarrow> less_pyfloat d b \<Longrightarrow> less_pyfloat d' b"
  by (cases b) simp_all

lemma not_less_pyfloat: "\<not> less_pyfloat d b \<Longrightarrow> pyfloat_le b d"
  by (cases b) simp_all

lemma foldl_improve_first_min:
  "(foldl (improve cm a) inc qs = inc
      \<and> (\<forall>j<length qs. \<not> less_pyfloat (tour_length cm (a # qs ! j)) (snd inc)))
   \<or> (\<exists>i<length qs.
         foldl (improve cm a) inc qs = (Some (a # qs ! i), Finite (tour_length cm (a # qs ! i)))
         \<and> less_pyfloat (tour_length cm (a # qs ! i)) (snd inc)
         \<and> (\<forall>j<length qs. tour_length cm (a # qs ! i) \<le> tour_length cm (a # qs ! j))
         \<and> (\<forall>j<i. tour_length cm (a # qs ! i) < tour_length cm (a # qs ! j)))"
proof (induction qs rule: rev_induct)
  case Nil
  then show ?case by simp
next
  case (snoc q qs)
  let ?E = "\<lambda>j. tour_length cm (a # qs ! j)"
  let ?F = "\<lambda>j. tour_length cm (a # (qs @ [q]) ! j)"
  let ?n = "length qs"
  have EF: "\<And>j. j < ?n \<Longrightarrow> ?F j = ?E j" by (simp add: nth_append)
  have Fn: "?F ?n = tour_length cm (a # q)" by simp
  let ?r = "foldl (improve cm a) inc qs"
  have step: "foldl (improve cm a) inc (qs @ [q]) = improve cm a ?r q" by simp
  from snoc.IH show ?case
  proof (elim disjE conjE exE)
    assume r: "?r = inc" and none: "\<forall>j<?n. \<not> less_pyfloat (?E j) (snd inc)"
    show ?thesis
    proof (cases "less_pyfloat (tour_length cm (a # q)) (snd inc)")
      case True
      have res: "foldl (improve cm a) inc (qs @ [q]) = (Some (a # (qs @ [q]) ! ?n), Finite (?F ?n))"
        using True r by (simp add: improve_def)
      have lt: "\<forall>j<?n. ?F ?n < ?F j"
      proof (intro allI impI)
        fix j assume j: "j < ?n"
        with none have "\<not> less_pyfloat (?E j) (snd inc)" by blast
        with True show "?F ?n < ?F j"
          unfolding EF[OF j] Fn by (cases "snd inc") simp_all
      qed
      have le: "\<forall>j<length (qs @ [q]). ?F ?n \<le> ?F j"
      proof (intro allI impI)
        fix j assume "j < length (qs @ [q])"
        then have "j < ?n \<or> j = ?n" by auto
        with lt show "?F ?n \<le> ?F j" by (auto simp: less_imp_le)
      qed
      have "?n < length (qs @ [q])" by simp
      moreover have "less_pyfloat (?F ?n) (snd inc)" using True by simp
      ultimately show ?thesis using res le lt by blast
    next
      case False
      have "foldl (improve cm a) inc (qs @ [q]) = inc"
        using False r by (simp add: improve_def)
      moreover have "\<forall>j<length (qs @ [q]). \<not> less_pyfloat (?F j) (snd inc)"
      proof (intro allI impI)
        fix j assume "j < length (qs @ [q])"
        then have "j < ?n \<or> j = ?n" by auto
        then show "\<not> less_pyfloat (?F j) (snd inc)"
          using none False EF by auto
      qed
      ultimately show ?thesis by blast
    qed
  next
    fix i assume i: "i < ?n" and r: "?r = (Some (a # qs ! i), Finite (?E i))"
      and li: "less_pyfloat (?E i) (snd inc)"
      and le: "\<forall>j<?n. ?E i \<le> ?E j" and lt: "\<forall>j<i. ?E i < ?E j"
    show ?thesis
    proof (cases "tour_length cm (a # q) < ?E i")
      case True
      have res: "foldl (improve cm a) inc (qs @ [q]) = (Some (a # (qs @ [q]) ! ?n), Finite (?F ?n))"
        using True r by (simp add: improve_def)
      have lt': "\<forall>j<?n. ?F ?n < ?F j"
      proof (intro allI impI)
        fix j assume j: "j < ?n"
        with le have "?E i \<le> ?E j" by blast
        with True show "?F ?n < ?F j" unfolding EF[OF j] Fn by simp
      qed
      have le': "\<forall>j<length (qs @ [q]). ?F ?n \<le> ?F j"
      proof (intro allI impI)
        fix j assume "j < length (qs @ [q])"
        then have "j < ?n \<or> j = ?n" by auto
        with lt' show "?F ?n \<le> ?F j" by (auto simp: less_imp_le)
      qed
      have "less_pyfloat (?F ?n) (snd inc)"
        unfolding Fn by (rule less_pyfloat_trans[OF True li])
      moreover have "?n < length (qs @ [q])" by simp
      ultimately show ?thesis using res le' lt' by blast
    next
      case False
      have res: "foldl (improve cm a) inc (qs @ [q]) = (Some (a # (qs @ [q]) ! i), Finite (?F i))"
        using False r i by (simp add: improve_def nth_append)
      have le': "\<forall>j<length (qs @ [q]). ?F i \<le> ?F j"
      proof (intro allI impI)
        fix j assume "j < length (qs @ [q])"
        then consider "j < ?n" | "j = ?n" by fastforce
        then show "?F i \<le> ?F j"
        proof cases
          case 1
          with le show ?thesis using EF[OF 1] EF[OF i] by simp
        next
          case 2
          with False show ?thesis using EF[OF i] by simp
        qed
      qed
      have lt': "\<forall>j<i. ?F i < ?F j"
      proof (intro allI impI)
        fix j assume j: "j < i"
        with i have jn: "j < ?n" by simp
        from lt j show "?F i < ?F j" using EF[OF jn] EF[OF i] by simp
      qed
      have "less_pyfloat (?F i) (snd inc)" using li EF[OF i] by simp
      moreover have "i < length (qs @ [q])" using i by simp
      ultimately show ?thesis using res le' lt' by blast
    qed
  qed
qed

lemma foldl_improve_initial:
  assumes "qs \<noteq> []"
  shows "\<exists>i<length qs.
           foldl (improve cm a) (None, Infinity) qs
             = (Some (a # qs ! i), Finite (tour_length cm (a # qs ! i)))
           \<and> (\<forall>j<length qs. tour_length cm (a # qs ! i) \<le> tour_length cm (a # qs ! j))
           \<and> (\<forall>j<i. tour_length cm (a # qs ! i) < tour_length cm (a # qs ! j))"
proof -
  from assms have "0 < length qs" by simp
  then have "\<not> (\<forall>j<length qs. \<not> less_pyfloat (tour_length cm (a # qs ! j)) (snd (None, Infinity)))"
    by auto
  with foldl_improve_first_min[of cm a "(None, Infinity)" qs] show ?thesis by blast
qed

lemma vertices_split: "ks \<noteq> [] \<Longrightarrow> sort ks ! 0 # drop 1 (sort ks) = sort ks"
proof -
  assume "ks \<noteq> []"
  then have "sort ks \<noteq> []" by (metis length_sort length_0_conv)
  then show ?thesis by (cases "sort ks") simp_all
qed

lemma anchor_min:
  fixes ks :: "vertex list"
  assumes "ks \<noteq> []"
  shows "sort ks ! 0 = Min (set ks)"
proof -
  from assms have ne: "sort ks \<noteq> []" by (metis length_sort length_0_conv)
  then obtain v vs where vs: "sort ks = v # vs" by (cases "sort ks") auto
  have "sorted (v # vs)" using sorted_sort[of ks] vs by simp
  then have "\<forall>x\<in>set (v # vs). v \<le> x" by auto
  moreover have "set (v # vs) = set ks" using vs by (metis set_sort)
  ultimately have "Min (set ks) = v"
    by (intro Min_eqI) auto
  with vs show ?thesis by simp
qed

lemma candidate_mset:
  assumes "ks \<noteq> []" and "p \<in> set (permutations (drop 1 (sort ks)))"
  shows "mset (sort ks ! 0 # p) = mset ks"
proof -
  from assms(2) have "mset p = mset (drop 1 (sort ks))" by (simp add: set_permutations)
  then have "mset (sort ks ! 0 # p) = mset (sort ks ! 0 # drop 1 (sort ks))" by simp
  also have "\<dots> = mset ks" unfolding vertices_split[OF assms(1)] by simp
  finally show ?thesis .
qed

lemma candidate_keys:
  assumes "keys cm \<noteq> []" and "p \<in> set (permutations (drop 1 (sort (keys cm))))"
  shows "set (sort (keys cm) ! 0 # p) \<subseteq> set (keys cm)"
  using candidate_mset[OF assms] by (metis mset_eq_setD subset_refl)

lemma length_candidates:
  "length (permutations (drop 1 (sort (keys cm)))) = fact (length cm - 1)"
  by (simp add: length_permutations keys_def)

lemma enumerate_run:
  assumes "cm \<noteq> []"
  shows "\<exists>b st k. enumerate_tours clock cm cutoff = Inr (b, st)
           \<and> k \<le> fact (length cm - 1)
           \<and> checked st = k + (if b then 1 else 0)
           \<and> (b \<longrightarrow> k < fact (length cm - 1) \<and> fires clock (clock 0) cutoff (checked st))
           \<and> (\<not> b \<longrightarrow> k = fact (length cm - 1))
           \<and> (\<forall>c. 0 < c \<and> c \<le> k \<longrightarrow> \<not> fires clock (clock 0) cutoff c)
           \<and> incumbent st = foldl (improve cm (sort (keys cm) ! 0)) (None, Infinity)
                               (take k (permutations (drop 1 (sort (keys cm)))))"
proof -
  let ?a = "sort (keys cm) ! 0"
  let ?ps = "permutations (drop 1 (sort (keys cm)))"
  from assms have ne: "keys cm \<noteq> []" by (simp add: keys_def)
  have ks: "\<forall>p\<in>set ?ps. set (?a # p) \<subseteq> set (keys cm)"
    using candidate_keys[OF ne] by blast
  have r0: "reads_ok initial_state"
    by (simp add: reads_ok_def initial_state_def reads_after_def)
  from loop_run[OF ks r0, of clock "clock 0" cutoff]
  obtain b st k where
    l: "loop clock (clock 0) cutoff cm ?a ?ps initial_state = Inr (b, st)"
    and k: "k \<le> length ?ps"
    and c: "checked st = checked initial_state + k + (if b then 1 else 0)"
    and bt: "b \<longrightarrow> k < length ?ps \<and> fires clock (clock 0) cutoff (checked st)"
    and bf: "\<not> b \<longrightarrow> k = length ?ps"
    and nf: "\<forall>c. checked initial_state < c \<and> c \<le> checked initial_state + k
               \<longrightarrow> \<not> fires clock (clock 0) cutoff c"
    and inc: "incumbent st = foldl (improve cm ?a) (incumbent initial_state) (take k ?ps)"
    by blast
  have e: "enumerate_tours clock cm cutoff = Inr (b, st)"
    using l by (simp add: enumerate_tours_def Let_def)
  have c0: "checked initial_state = 0" and i0: "incumbent initial_state = (None, Infinity)"
    by (simp_all add: initial_state_def incumbent_def)
  show ?thesis
    using e k c bt bf nf inc unfolding c0 i0 length_candidates
    by (intro exI[of _ b] exI[of _ st] exI[of _ k]) simp
qed

lemma candidates_nth:
  "i < fact (length cm - 1) \<Longrightarrow>
   candidates cm ! i = sort (keys cm) ! 0 # permutations (drop 1 (sort (keys cm))) ! i"
  unfolding candidates_def anchor_def length_candidates[symmetric, of cm] by simp

lemma search_outcome:
  assumes "2 \<le> length cm"
  shows "\<exists>b st k. run_summary clock cm cutoff b st k"
proof -
  let ?vs = "sort (keys cm)"
  let ?a = "?vs ! 0"
  let ?ps = "permutations (drop 1 ?vs)"
  from assms have cne: "cm \<noteq> []" by auto
  then have ne: "keys cm \<noteq> []" by (simp add: keys_def)
  have len: "length ?vs = length cm" by (simp add: keys_def)
  from enumerate_run[OF cne, of clock cutoff] obtain b st k where
    e: "enumerate_tours clock cm cutoff = Inr (b, st)"
    and k: "k \<le> fact (length cm - 1)"
    and c: "checked st = k + (if b then 1 else 0)"
    and bt: "b \<longrightarrow> k < fact (length cm - 1) \<and> fires clock (clock 0) cutoff (checked st)"
    and bf: "\<not> b \<longrightarrow> k = fact (length cm - 1)"
    and nf: "\<forall>c. 0 < c \<and> c \<le> k \<longrightarrow> \<not> fires clock (clock 0) cutoff c"
    and inc: "incumbent st = foldl (improve cm ?a) (None, Infinity) (take k ?ps)"
    by blast
  have bf_eq: "brute_force_tsp clock cm cutoff =
      (case best_tour st of
         None \<Rightarrow> (case calculate_tour_distance (?a # drop 1 ?vs) cm of
                     Inl e \<Rightarrow> Inl e | Inr d \<Rightarrow> Inr (?a # drop 1 ?vs, Finite d))
       | Some t \<Rightarrow> Inr (t, best_distance st))"
  proof -
    have n: "length ?vs \<noteq> 0" "length ?vs \<noteq> 1" using assms len by auto
    show ?thesis
      unfolding brute_force_tsp_def Let_def e
      by (simp only: n if_False sum.case prod.case)
  qed
  have zero: "k = 0 \<longrightarrow> brute_force_tsp clock cm cutoff
                  = Inr (?vs, Finite (tour_length cm ?vs))"
  proof
    assume "k = 0"
    with inc have "best_tour st = None" by (simp add: incumbent_def)
    moreover have "calculate_tour_distance ?vs cm = Inr (tour_length cm ?vs)"
      by (rule calculate_tour_distance_present) simp
    ultimately show "brute_force_tsp clock cm cutoff = Inr (?vs, Finite (tour_length cm ?vs))"
      unfolding bf_eq vertices_split[OF ne] by simp
  qed
  have pos: "0 < k \<longrightarrow> (\<exists>i. first_shortest cm (candidates cm) k i
               \<and> brute_force_tsp clock cm cutoff
                   = Inr (candidates cm ! i, Finite (tour_length cm (candidates cm ! i))))"
  proof
    assume kp: "0 < k"
    let ?qs = "take k ?ps"
    have lq: "length ?qs = k" using k unfolding length_candidates[symmetric] by simp
    then have qne: "?qs \<noteq> []" using kp by auto
    from foldl_improve_initial[OF qne, of cm ?a] obtain i where
      i: "i < length ?qs"
      and r: "foldl (improve cm ?a) (None, Infinity) ?qs
                = (Some (?a # ?qs ! i), Finite (tour_length cm (?a # ?qs ! i)))"
      and le: "\<forall>j<length ?qs. tour_length cm (?a # ?qs ! i) \<le> tour_length cm (?a # ?qs ! j)"
      and lt: "\<forall>j<i. tour_length cm (?a # ?qs ! i) < tour_length cm (?a # ?qs ! j)"
      by blast
    have ik: "i < k" using i lq by simp
    have nth: "\<And>j. j < k \<Longrightarrow> ?a # ?qs ! j = candidates cm ! j"
    proof -
      fix j assume j: "j < k"
      with k have "j < fact (length cm - 1)" by simp
      from candidates_nth[OF this] j show "?a # ?qs ! j = candidates cm ! j" by simp
    qed
    have r': "foldl (improve cm ?a) (None, Infinity) ?qs
                = (Some (candidates cm ! i), Finite (tour_length cm (candidates cm ! i)))"
      using r unfolding nth[OF ik] .
    from inc r' have "best_tour st = Some (candidates cm ! i)"
      and "best_distance st = Finite (tour_length cm (candidates cm ! i))"
      by (simp_all add: incumbent_def)
    then have res: "brute_force_tsp clock cm cutoff
                  = Inr (candidates cm ! i, Finite (tour_length cm (candidates cm ! i)))"
      unfolding bf_eq by simp
    have le': "\<forall>j<k. tour_length cm (candidates cm ! i) \<le> tour_length cm (candidates cm ! j)"
    proof (intro allI impI)
      fix j assume j: "j < k"
      with le lq have "tour_length cm (?a # ?qs ! i) \<le> tour_length cm (?a # ?qs ! j)" by simp
      then show "tour_length cm (candidates cm ! i) \<le> tour_length cm (candidates cm ! j)"
        unfolding nth[OF ik] nth[OF j] .
    qed
    have lt': "\<forall>j<i. tour_length cm (candidates cm ! i) < tour_length cm (candidates cm ! j)"
    proof (intro allI impI)
      fix j assume j: "j < i"
      then have jk: "j < k" using ik by simp
      from lt j have "tour_length cm (?a # ?qs ! i) < tour_length cm (?a # ?qs ! j)" by simp
      then show "tour_length cm (candidates cm ! i) < tour_length cm (candidates cm ! j)"
        unfolding nth[OF ik] nth[OF jk] .
    qed
    have "first_shortest cm (candidates cm) k i"
      unfolding first_shortest_def using ik le' lt' by blast
    with res show "\<exists>i. first_shortest cm (candidates cm) k i
               \<and> brute_force_tsp clock cm cutoff
                   = Inr (candidates cm ! i, Finite (tour_length cm (candidates cm ! i)))"
      by blast
  qed
  have "run_summary clock cm cutoff b st k"
    unfolding run_summary_def using e k c bt bf nf zero pos
    by blast
  then show ?thesis by (intro exI)
qed

lemma brute_force_tsp_empty: "brute_force_tsp clock [] cutoff = Inr ([], Finite 0)"
  by (simp add: brute_force_tsp_def keys_def)

lemma brute_force_tsp_single:
  assumes "length cm = 1"
  shows "brute_force_tsp clock cm cutoff = Inr (sort (keys cm), Finite 0)"
proof -
  have "length (sort (keys cm)) = 1" using assms by (simp add: keys_def)
  then show ?thesis unfolding brute_force_tsp_def Let_def by simp
qed

lemma candidate_props:
  assumes "cm \<noteq> []" and "i < fact (length cm - 1)"
  shows "set (candidates cm ! i) \<subseteq> set (keys cm)"
    and "mset (candidates cm ! i) = mset (keys cm)"
    and "candidates cm ! i \<noteq> []"
    and "candidates cm ! i ! 0 = sort (keys cm) ! 0"
proof -
  let ?p = "permutations (drop 1 (sort (keys cm))) ! i"
  from assms(1) have ne: "keys cm \<noteq> []" by (simp add: keys_def)
  have mem: "?p \<in> set (permutations (drop 1 (sort (keys cm))))"
    using assms(2) unfolding length_candidates[symmetric] by (rule nth_mem)
  have c: "candidates cm ! i = sort (keys cm) ! 0 # ?p" by (rule candidates_nth[OF assms(2)])
  show "set (candidates cm ! i) \<subseteq> set (keys cm)"
    unfolding c by (rule candidate_keys[OF ne mem])
  show "mset (candidates cm ! i) = mset (keys cm)"
    unfolding c by (rule candidate_mset[OF ne mem])
  show "candidates cm ! i \<noteq> []" unfolding c by simp
  show "candidates cm ! i ! 0 = sort (keys cm) ! 0" unfolding c by simp
qed

lemma size_cases:
  obtains "cm = []" | "length cm = 1" | "2 \<le> length cm"
  using length_0_conv[of cm] by linarith

lemma search_cases:
  assumes "2 \<le> length cm"
  shows "brute_force_tsp clock cm cutoff
           = Inr (sort (keys cm), Finite (tour_length cm (sort (keys cm))))
       \<or> (\<exists>i<fact (length cm - 1). brute_force_tsp clock cm cutoff
             = Inr (candidates cm ! i, Finite (tour_length cm (candidates cm ! i))))"
proof -
  from search_outcome[OF assms, of clock cutoff] obtain b st k
    where H: "run_summary clock cm cutoff b st k" by blast
  from H have k: "k \<le> fact (length cm - 1)" by (simp add: run_summary_def)
  show ?thesis
  proof (cases "k = 0")
    case True
    with H show ?thesis by (simp add: run_summary_def)
  next
    case False
    with H obtain i where fs: "first_shortest cm (candidates cm) k i"
      and r: "brute_force_tsp clock cm cutoff
                 = Inr (candidates cm ! i, Finite (tour_length cm (candidates cm ! i)))"
      unfolding run_summary_def by blast
    from fs k have "i < fact (length cm - 1)" by (simp add: first_shortest_def)
    with r show ?thesis by blast
  qed
qed

lemma brute_force_tsp_returns:
  "\<exists>tour. brute_force_tsp clock cm cutoff = Inr (tour, Finite (tour_length cm tour))
      \<and> calculate_tour_distance tour cm = Inr (tour_length cm tour)
      \<and> mset tour = mset (keys cm)
      \<and> (cm \<noteq> [] \<longrightarrow> tour ! 0 = sort (keys cm) ! 0)"
proof (cases cm rule: size_cases)
  case 1
  have "calculate_tour_distance [] [] = Inr (tour_length [] [])"
    by (simp add: calculate_tour_distance_def tour_length_def)
  with 1 show ?thesis
    by (intro exI[of _ "[]"]) (simp add: brute_force_tsp_empty tour_length_def keys_def)
next
  case 2
  then have l: "length (sort (keys cm)) < 2" by (simp add: keys_def)
  then have t: "tour_length cm (sort (keys cm)) = 0" by (simp add: tour_length_def)
  have c: "calculate_tour_distance (sort (keys cm)) cm = Inr 0"
    by (rule calculate_tour_distance_short[OF l])
  show ?thesis
    using brute_force_tsp_single[OF 2, of clock cutoff] t c
    by (intro exI[of _ "sort (keys cm)"]) simp
next
  case 3
  then have cne: "cm \<noteq> []" by auto
  from search_cases[OF 3, of clock cutoff] show ?thesis
  proof (elim disjE exE conjE)
    assume r: "brute_force_tsp clock cm cutoff
           = Inr (sort (keys cm), Finite (tour_length cm (sort (keys cm))))"
    have "calculate_tour_distance (sort (keys cm)) cm = Inr (tour_length cm (sort (keys cm)))"
      by (rule calculate_tour_distance_present) simp
    with r show ?thesis by (intro exI[of _ "sort (keys cm)"]) simp
  next
    fix i assume i: "i < fact (length cm - 1)"
      and r: "brute_force_tsp clock cm cutoff
             = Inr (candidates cm ! i, Finite (tour_length cm (candidates cm ! i)))"
    have "calculate_tour_distance (candidates cm ! i) cm = Inr (tour_length cm (candidates cm ! i))"
      by (rule calculate_tour_distance_present[OF candidate_props(1)[OF cne i]])
    with r candidate_props(2,4)[OF cne i] show ?thesis
      by (intro exI[of _ "candidates cm ! i"]) simp
  qed
qed

lemma sqrt_9: "sqrt 9 = 3" by (rule real_sqrt_unique) auto

lemma sqrt_16: "sqrt 16 = 4" by (rule real_sqrt_unique) auto

lemma sqrt_25: "sqrt 25 = 5" by (rule real_sqrt_unique) auto

lemmas run_simps = brute_force_tsp_def enumerate_tours_def keys_def permutations_def
  initial_state_def loop_body_def check_interval_def calculate_tour_distance_def getitem_def
  sqrt_9 sqrt_16 sqrt_25 upt_rec triangle_def


lemma loop_body_break:
  assumes "time_check clock s cutoff st"
  shows "\<exists>st'. loop_body clock s cutoff cm a p st = Inr (True, st')
           \<and> checked st' = checked st + 1 \<and> incumbent st' = incumbent st"
  using assms by (simp add: loop_body_def Let_def time_check_def incumbent_def)

lemma loop_body_error:
  assumes "\<not> time_check clock s cutoff st" and "calculate_tour_distance (a # p) cm = Inl e"
  shows "loop_body clock s cutoff cm a p st = Inl e"
  using assms by (simp add: loop_body_def Let_def time_check_def)

lemma loop_body_eval:
  assumes "\<not> time_check clock s cutoff st" and "calculate_tour_distance (a # p) cm = Inr d"
  shows "\<exists>st'. loop_body clock s cutoff cm a p st = Inr (False, st')
           \<and> checked st' = checked st + 1
           \<and> incumbent st' = (if less_pyfloat d (best_distance st)
                               then (Some (a # p), Finite d) else incumbent st)"
  using assms by (simp add: loop_body_def Let_def time_check_def incumbent_def)

lemma time_check_timed:
  "time_check clock s cutoff st \<Longrightarrow>
     checked st + 1 = 1 \<or> (checked st + 1) mod check_interval = 0"
  by (simp add: time_check_def)

lemma loop_body_Inr:
  assumes "loop_body clock s cutoff cm a p st = Inr (b, st')"
  shows "checked st' = checked st + 1"
    and "b \<Longrightarrow> incumbent st' = incumbent st"
    and "b \<Longrightarrow> checked st' = 1 \<or> checked st' mod check_interval = 0"
    and "\<not> b \<Longrightarrow> \<exists>d. calculate_tour_distance (a # p) cm = Inr d
            \<and> incumbent st' = (if less_pyfloat d (best_distance st)
                                then (Some (a # p), Finite d) else incumbent st)"
proof -
  have all: "checked st' = checked st + 1
     \<and> (b \<longrightarrow> incumbent st' = incumbent st
              \<and> (checked st' = 1 \<or> checked st' mod check_interval = 0))
     \<and> (\<not> b \<longrightarrow> (\<exists>d. calculate_tour_distance (a # p) cm = Inr d
            \<and> incumbent st' = (if less_pyfloat d (best_distance st)
                                then (Some (a # p), Finite d) else incumbent st)))"
  proof (cases "time_check clock s cutoff st")
    case True
    from loop_body_break[OF True, of cm a p] assms obtain
      "b" "st' = st'" "checked st' = checked st + 1" "incumbent st' = incumbent st"
      by auto
    with time_check_timed[OF True] show ?thesis by simp
  next
    case False
    show ?thesis
    proof (cases "calculate_tour_distance (a # p) cm")
      case (Inl e)
      from loop_body_error[OF False Inl] assms show ?thesis by simp
    next
      case (Inr d)
      from loop_body_eval[OF False Inr] assms have
        "\<not> b" "checked st' = checked st + 1"
        "incumbent st' = (if less_pyfloat d (best_distance st)
                               then (Some (a # p), Finite d) else incumbent st)"
        by auto
      with Inr show ?thesis by simp
    qed
  qed
  from all show "checked st' = checked st + 1" by simp
  from all show "b \<Longrightarrow> incumbent st' = incumbent st" by simp
  from all have "b \<longrightarrow> incumbent st' = incumbent st
              \<and> (checked st' = 1 \<or> checked st' mod check_interval = 0)"
    by (rule conjunct1[OF conjunct2])
  then show "b \<Longrightarrow> checked st' = 1 \<or> checked st' mod check_interval = 0" by simp
  from all show "\<not> b \<Longrightarrow> \<exists>d. calculate_tour_distance (a # p) cm = Inr d
            \<and> incumbent st' = (if less_pyfloat d (best_distance st)
                                then (Some (a # p), Finite d) else incumbent st)" by simp
qed

lemma loop_append:
  "loop clock s cutoff cm a (qs @ rest) st =
     (case loop clock s cutoff cm a qs st of
        Inl e \<Rightarrow> Inl e
      | Inr (True, st1) \<Rightarrow> Inr (True, st1)
      | Inr (False, st1) \<Rightarrow> loop clock s cutoff cm a rest st1)"
  by (induction qs arbitrary: st) (auto split: sum.splits bool.splits prod.splits)

lemma pyfloat_le_trans: "less_pyfloat d b \<Longrightarrow> pyfloat_le b d' \<Longrightarrow> d \<le> d'"
  by (cases b) simp_all

lemma loop_invariant:
  assumes "loop clock s cutoff cm a ps st = Inr (b, st')"
  shows "\<exists>k\<le>length ps.
           checked st' = checked st + k + (if b then 1 else 0)
         \<and> (\<not> b \<longrightarrow> k = length ps)
         \<and> (\<forall>p\<in>set (take k ps). \<exists>d. calculate_tour_distance (a # p) cm = Inr d
                \<and> pyfloat_le (best_distance st') d)
         \<and> (\<forall>d. pyfloat_le (best_distance st) d \<longrightarrow> pyfloat_le (best_distance st') d)
         \<and> (best_tour st \<noteq> None \<longrightarrow> best_tour st' \<noteq> None)
         \<and> (incumbent st' = incumbent st
            \<or> (\<exists>p\<in>set (take k ps). \<exists>d. calculate_tour_distance (a # p) cm = Inr d
                  \<and> incumbent st' = (Some (a # p), Finite d)
                  \<and> less_pyfloat d (best_distance st)))"
  using assms
proof (induction ps arbitrary: st)
  case Nil
  then show ?case by simp
next
  case (Cons p ps)
  from Cons.prems obtain b1 st1 where
    lb: "loop_body clock s cutoff cm a p st = Inr (b1, st1)"
    by (auto split: sum.splits)
  note c1 = loop_body_Inr(1)[OF lb]
  show ?case
  proof (cases b1)
    case True
    with lb Cons.prems have e: "b = True" "st' = st1" by simp_all
    from loop_body_Inr(2)[OF lb True] have i: "incumbent st1 = incumbent st" .
    then have "best_tour st1 = best_tour st" "best_distance st1 = best_distance st"
      by (simp_all add: incumbent_def)
    with e c1 i show ?thesis by (intro exI[of _ 0]) simp
  next
    case False
    with lb Cons.prems have l: "loop clock s cutoff cm a ps st1 = Inr (b, st')" by simp
    from loop_body_Inr(4)[OF lb False] obtain d where
      d: "calculate_tour_distance (a # p) cm = Inr d"
      and i1: "incumbent st1 = (if less_pyfloat d (best_distance st)
                                then (Some (a # p), Finite d) else incumbent st)"
      by blast
    from Cons.IH[OF l] obtain k where
      k: "k \<le> length ps"
      and c: "checked st' = checked st1 + k + (if b then 1 else 0)"
      and nb: "\<not> b \<longrightarrow> k = length ps"
      and ev: "\<forall>q\<in>set (take k ps). \<exists>d. calculate_tour_distance (a # q) cm = Inr d
                \<and> pyfloat_le (best_distance st') d"
      and mono: "\<forall>d. pyfloat_le (best_distance st1) d \<longrightarrow> pyfloat_le (best_distance st') d"
      and keep: "best_tour st1 \<noteq> None \<longrightarrow> best_tour st' \<noteq> None"
      and chg: "incumbent st' = incumbent st1
            \<or> (\<exists>q\<in>set (take k ps). \<exists>d. calculate_tour_distance (a # q) cm = Inr d
                  \<and> incumbent st' = (Some (a # q), Finite d)
                  \<and> less_pyfloat d (best_distance st1))"
      by blast
    have bd1: "best_distance st1 = (if less_pyfloat d (best_distance st)
                                     then Finite d else best_distance st)"
      and bt1: "best_tour st1 = (if less_pyfloat d (best_distance st)
                                     then Some (a # p) else best_tour st)"
      using i1 by (simp_all add: incumbent_def split: if_splits)
    have le1: "pyfloat_le (best_distance st1) d"
      unfolding bd1 by (simp add: not_less_pyfloat)
    have mono1: "\<forall>d'. pyfloat_le (best_distance st) d' \<longrightarrow> pyfloat_le (best_distance st1) d'"
      unfolding bd1 using pyfloat_le_trans[of d "best_distance st"] by auto
    have less1: "\<forall>d'. less_pyfloat d' (best_distance st1) \<longrightarrow> less_pyfloat d' (best_distance st)"
      unfolding bd1 using less_pyfloat_trans[of _ d "best_distance st"] by auto
    have tk: "take (Suc k) (p # ps) = p # take k ps" by simp
    have A: "Suc k \<le> length (p # ps)" using k by simp
    have B: "checked st' = checked st + Suc k + (if b then 1 else 0)" using c c1 by simp
    have C: "\<not> b \<longrightarrow> Suc k = length (p # ps)" using nb by simp
    have D: "\<forall>q\<in>set (take (Suc k) (p # ps)). \<exists>d. calculate_tour_distance (a # q) cm = Inr d
                \<and> pyfloat_le (best_distance st') d"
      unfolding tk using ev d le1 mono by auto
    have E: "\<forall>d. pyfloat_le (best_distance st) d \<longrightarrow> pyfloat_le (best_distance st') d"
      using mono mono1 by blast
    have F: "best_tour st \<noteq> None \<longrightarrow> best_tour st' \<noteq> None"
      using keep bt1 by auto
    have G: "incumbent st' = incumbent st
            \<or> (\<exists>q\<in>set (take (Suc k) (p # ps)). \<exists>d. calculate_tour_distance (a # q) cm = Inr d
                  \<and> incumbent st' = (Some (a # q), Finite d)
                  \<and> less_pyfloat d (best_distance st))"
    proof -
      from chg show ?thesis
      proof (elim disjE bexE exE conjE)
        assume same: "incumbent st' = incumbent st1"
        show ?thesis
        proof (cases "less_pyfloat d (best_distance st)")
          case True
          with same i1 d have "calculate_tour_distance (a # p) cm = Inr d
                  \<and> incumbent st' = (Some (a # p), Finite d)
                  \<and> less_pyfloat d (best_distance st)" by simp
          then show ?thesis unfolding tk by auto
        next
          case False
          with same i1 show ?thesis by simp
        qed
      next
        fix q d' assume q: "q \<in> set (take k ps)"
          and dq: "calculate_tour_distance (a # q) cm = Inr d'"
          and iq: "incumbent st' = (Some (a # q), Finite d')"
          and lq: "less_pyfloat d' (best_distance st1)"
        from lq less1 have "less_pyfloat d' (best_distance st)" by blast
        with q dq iq show ?thesis unfolding tk by auto
      qed
    qed
    from A B C D E F G show ?thesis by (intro exI[of _ "Suc k"]) blast
  qed
qed




section \<open>The claims\<close>



text \<open>
  Claim C2. For every coordinate dictionary, every clock and every budget the search
  returns a tour that is a permutation of the dictionary's keys: the same multiset and the
  same set of IDs, no ID twice, as many IDs as the dictionary has entries, and not empty
  when the dictionary is not.
\<close>

theorem returned_tour_is_permutation:
  assumes "dict_ok cm"
  shows "\<exists>tour d. brute_force_tsp clock cm cutoff = Inr (tour, d)
           \<and> mset tour = mset (keys cm) \<and> set tour = set (keys cm)
           \<and> distinct tour \<and> length tour = length cm
           \<and> (cm \<noteq> [] \<longrightarrow> tour \<noteq> [])"
proof -
  from brute_force_tsp_returns[of clock cm cutoff] obtain tour where
    r: "brute_force_tsp clock cm cutoff = Inr (tour, Finite (tour_length cm tour))"
    and m: "mset tour = mset (keys cm)" by blast
  from m have s: "set tour = set (keys cm)" by (rule mset_eq_setD)
  from m have l: "length tour = length (keys cm)" by (rule mset_eq_length)
  from m assms have d: "distinct tour" by (metis dict_ok_def keys_def mset_eq_imp_distinct_iff)
  from l have "length tour = length cm" "cm \<noteq> [] \<longrightarrow> tour \<noteq> []" by (auto simp: keys_def)
  with r m s d show ?thesis by blast
qed

theorem returned_tour_is_permutation_witness:
  "dict_ok triangle
   \<and> (\<exists>tour d. brute_force_tsp (\<lambda>k. 0) triangle 5 = Inr (tour, d)
           \<and> mset tour = mset (keys triangle) \<and> set tour = set (keys triangle)
           \<and> distinct tour \<and> length tour = length triangle
           \<and> (triangle \<noteq> [] \<longrightarrow> tour \<noteq> []))"
proof -
  have h: "dict_ok triangle" by (simp add: dict_ok_def triangle_def)
  from returned_tour_is_permutation[OF h] h show ?thesis by blast
qed

text \<open>
  Claim C3. On every return path (no vertex, one vertex, a tour found by the loop, the
  fallback tour) the distance of the returned pair is a finite number and equals what
  \<^verbatim>\<open>calculate_tour_distance\<close> computes for the returned tour on the same coordinates.
\<close>

theorem returned_distance_matches_tour:
  "\<exists>tour d. brute_force_tsp clock cm cutoff = Inr (tour, Finite d)
      \<and> calculate_tour_distance tour cm = Inr d"
  using brute_force_tsp_returns[of clock cm cutoff] by blast





text \<open>
  Claim C6. Take any run of the loop over a list of orderings and any point of it: the
  orderings \<open>qs\<close> handled so far, the others \<open>rest\<close> still to come. The loop over \<open>qs\<close>
  alone gives the variables \<open>st1\<close> at that point (and, unless it took \<^verbatim>\<open>break\<close>, the whole
  run continues from \<open>st1\<close> over \<open>rest\<close>). The first \<open>k\<close> orderings of \<open>qs\<close> were
  evaluated, all of them unless \<^verbatim>\<open>break\<close> was taken, and at that point
  \<^item> the incumbent's distance is at most the distance of every evaluated candidate;
  \<^item> the incumbent's distance is at most what it was at the start (\<open>st\<close>);
  \<^item> an incumbent, once there, is never removed;
  \<^item> the incumbent is unchanged, or it is one of the evaluated candidates, with that
    candidate's distance, which is strictly smaller than the distance at the start.
\<close>

theorem incumbent_monotonic:
  assumes "loop clock s cutoff cm a (qs @ rest) st = Inr (b, st')"
  shows "\<exists>b1 st1 k. loop clock s cutoff cm a qs st = Inr (b1, st1)
      \<and> (\<not> b1 \<longrightarrow> loop clock s cutoff cm a (qs @ rest) st = loop clock s cutoff cm a rest st1)
      \<and> k \<le> length qs
      \<and> checked st1 = checked st + k + (if b1 then 1 else 0)
      \<and> (\<not> b1 \<longrightarrow> k = length qs)
      \<and> (\<forall>p\<in>set (take k qs). \<exists>d. calculate_tour_distance (a # p) cm = Inr d
             \<and> pyfloat_le (best_distance st1) d)
      \<and> (\<forall>d. pyfloat_le (best_distance st) d \<longrightarrow> pyfloat_le (best_distance st1) d)
      \<and> (best_tour st \<noteq> None \<longrightarrow> best_tour st1 \<noteq> None)
      \<and> ((best_tour st1 = best_tour st \<and> best_distance st1 = best_distance st)
         \<or> (\<exists>p\<in>set (take k qs). \<exists>d. calculate_tour_distance (a # p) cm = Inr d
               \<and> best_tour st1 = Some (a # p) \<and> best_distance st1 = Finite d
               \<and> less_pyfloat d (best_distance st)))"
proof -
  from assms obtain b1 st1 where l: "loop clock s cutoff cm a qs st = Inr (b1, st1)"
    unfolding loop_append by (cases "loop clock s cutoff cm a qs st") auto
  have cont: "\<not> b1 \<longrightarrow>
      loop clock s cutoff cm a (qs @ rest) st = loop clock s cutoff cm a rest st1"
    unfolding loop_append l by simp
  from loop_invariant[OF l] obtain k where
    k: "k \<le> length qs"
    and c: "checked st1 = checked st + k + (if b1 then 1 else 0)"
    and nb: "\<not> b1 \<longrightarrow> k = length qs"
    and ev: "\<forall>p\<in>set (take k qs). \<exists>d. calculate_tour_distance (a # p) cm = Inr d
                \<and> pyfloat_le (best_distance st1) d"
    and mono: "\<forall>d. pyfloat_le (best_distance st) d \<longrightarrow> pyfloat_le (best_distance st1) d"
    and keep: "best_tour st \<noteq> None \<longrightarrow> best_tour st1 \<noteq> None"
    and chg: "incumbent st1 = incumbent st
            \<or> (\<exists>p\<in>set (take k qs). \<exists>d. calculate_tour_distance (a # p) cm = Inr d
                  \<and> incumbent st1 = (Some (a # p), Finite d)
                  \<and> less_pyfloat d (best_distance st))"
    by blast
  from chg have chg': "(best_tour st1 = best_tour st \<and> best_distance st1 = best_distance st)
         \<or> (\<exists>p\<in>set (take k qs). \<exists>d. calculate_tour_distance (a # p) cm = Inr d
               \<and> best_tour st1 = Some (a # p) \<and> best_distance st1 = Finite d
               \<and> less_pyfloat d (best_distance st))"
    unfolding incumbent_def prod.inject by (simp only: conj_assoc)
  from l cont k c nb ev mono keep chg' show ?thesis
    by (intro exI[of _ b1] exI[of _ st1] exI[of _ k]) blast
qed

theorem incumbent_monotonic_witness:
  "loop (\<lambda>k. 0) 0 5 triangle 1 ([[2, 3]] @ [[3, 2]]) initial_state
     = Inr (False, \<lparr>checked = 2, clock_reads = 2, best_tour = Some [1, 2, 3],
                    best_distance = Finite 12\<rparr>)
   \<and> (\<exists>b1 st1 k. loop (\<lambda>k. 0) 0 5 triangle 1 [[2, 3]] initial_state = Inr (b1, st1)
      \<and> (\<not> b1 \<longrightarrow> loop (\<lambda>k. 0) 0 5 triangle 1 ([[2, 3]] @ [[3, 2]]) initial_state
                     = loop (\<lambda>k. 0) 0 5 triangle 1 [[3, 2]] st1)
      \<and> k \<le> length [[2::int, 3]]
      \<and> checked st1 = checked initial_state + k + (if b1 then 1 else 0)
      \<and> (\<not> b1 \<longrightarrow> k = length [[2::int, 3]])
      \<and> (\<forall>p\<in>set (take k [[2, 3]]). \<exists>d. calculate_tour_distance (1 # p) triangle = Inr d
             \<and> pyfloat_le (best_distance st1) d)
      \<and> (\<forall>d. pyfloat_le (best_distance initial_state) d \<longrightarrow> pyfloat_le (best_distance st1) d)
      \<and> (best_tour initial_state \<noteq> None \<longrightarrow> best_tour st1 \<noteq> None)
      \<and> ((best_tour st1 = best_tour initial_state
            \<and> best_distance st1 = best_distance initial_state)
         \<or> (\<exists>p\<in>set (take k [[2, 3]]). \<exists>d. calculate_tour_distance (1 # p) triangle = Inr d
               \<and> best_tour st1 = Some (1 # p) \<and> best_distance st1 = Finite d
               \<and> less_pyfloat d (best_distance initial_state))))"
proof -
  have h: "loop (\<lambda>k. 0) 0 5 triangle 1 ([[2, 3]] @ [[3, 2]]) initial_state
     = Inr (False, \<lparr>checked = 2, clock_reads = 2, best_tour = Some [1, 2, 3],
                    best_distance = Finite 12\<rparr>)"
    by (simp add: run_simps)
  show ?thesis by (rule conjI[OF h incumbent_monotonic[OF h]])
qed








text \<open>
  Claim C10. For a dictionary with at least two vertices, every clock and every budget,
  the returned tour is not empty and starts with the smallest vertex ID of the dictionary,
  on the path through the loop and on the fallback path.
\<close>

theorem returned_tour_starts_at_min:
  assumes "2 \<le> length cm"
  shows "\<exists>tour d. brute_force_tsp clock cm cutoff = Inr (tour, d)
           \<and> tour \<noteq> [] \<and> hd tour = Min (set (keys cm))"
proof -
  from assms have cne: "cm \<noteq> []" by auto
  then have ne: "keys cm \<noteq> []" by (simp add: keys_def)
  from brute_force_tsp_returns[of clock cm cutoff] cne obtain tour where
    r: "brute_force_tsp clock cm cutoff = Inr (tour, Finite (tour_length cm tour))"
    and m: "mset tour = mset (keys cm)" and a: "tour ! 0 = sort (keys cm) ! 0" by blast
  from m ne have t: "tour \<noteq> []" by auto
  then have "hd tour = tour ! 0" by (rule hd_conv_nth)
  with a anchor_min[OF ne] have "hd tour = Min (set (keys cm))" by simp
  with r t show ?thesis by blast
qed

theorem returned_tour_starts_at_min_witness:
  "2 \<le> length triangle
   \<and> brute_force_tsp (\<lambda>k. 0) triangle 5 = Inr ([1, 2, 3], Finite 12)
   \<and> (\<exists>tour d. brute_force_tsp (\<lambda>k. 0) triangle 5 = Inr (tour, d)
           \<and> tour \<noteq> [] \<and> hd tour = Min (set (keys triangle)))"
proof -
  have h: "2 \<le> length triangle" by (simp add: triangle_def)
  have "brute_force_tsp (\<lambda>k. 0) triangle 5 = Inr ([1, 2, 3], Finite 12)"
    by (simp add: run_simps)
  with returned_tour_starts_at_min[OF h, of "\<lambda>k. 0" 5] h show ?thesis by blast
qed

end
